theory Spec2Isabelle
  imports Main
begin

section \<open>The asynchronous detection loop of object_detection_demo_ssd_async/main.cpp\<close>

text \<open>
  The embedding covers sections 6 to 9 of \<^verbatim>\<open>main\<close>: the variables set up before the
  \<^verbatim>\<open>while (true)\<close> loop, the loop itself, the completion callback registered for every
  started request, and the final wait for the running requests.

  There are two kinds of actors. The control thread runs the loop; each started request
  later runs its completion callback on a thread of the inference runtime. The callback
  body holds \<^verbatim>\<open>mutex\<close> from its first to its last statement, so it is one transition. The
  control thread is cut into transitions at the places where it reads or writes a variable
  that a callback also touches (\<^verbatim>\<open>emptyRequests\<close>, \<^verbatim>\<open>completedRequestResults\<close>,
  \<^verbatim>\<open>callbackException\<close>, \<^verbatim>\<open>isUserSpecifiedMode\<close>) and at the places where it blocks.
  A run is a list of events, each naming the actor that moves next together with what
  the environment hands to it (the key pressed, the frame read, the outcome of the
  inference). Every interleaving of the control thread with the callbacks is a run.

  What the inference runtime does is not part of this program; the model takes from it
  that a started request runs its completion callback once, at any later moment, and that
  \<^verbatim>\<open>Wait(RESULT_READY)\<close> returns at once for a request that is not running and otherwise
  when the callback of the request has returned. The control thread writes
  \<^verbatim>\<open>isUserSpecifiedMode\<close> and assigns \<^verbatim>\<open>emptyRequests\<close> in the Tab handler without
  holding \<^verbatim>\<open>mutex\<close>; each of these writes is one transition, taken between two callbacks
  and never in the middle of one.
\<close>

subsection \<open>Data\<close>

type_synonym Mat = nat
  \<comment> \<open>\<^verbatim>\<open>cv::Mat\<close>: a frame, opaque to the loop\<close>
type_synonym Blob = nat
  \<comment> \<open>the locked memory of the output blob, opaque to the loop\<close>
type_synonym TimePoint = nat
  \<comment> \<open>\<^verbatim>\<open>std::chrono::steady_clock::time_point\<close>\<close>

text \<open>
  The infer requests: \<^verbatim>\<open>userSpecifiedInferRequests[i]\<close> for \<^verbatim>\<open>i < FLAGS_nireq\<close>, and the
  single \<^verbatim>\<open>minLatencyInferRequest\<close>.
\<close>

datatype InferRequest = UserSpecifiedRequest nat | MinLatencyRequest

record RequestResult =
  frame :: Mat
  outputBlob :: Blob
  requestStartTime :: TimePoint
  isSameMode :: bool

datatype exception =
  ExtractionFailure nat
    \<comment> \<open>whatever \<^verbatim>\<open>GetBlob\<close> or \<^verbatim>\<open>rmap\<close> throws inside the callback\<close>
  | FailedToGetFrame
    \<comment> \<open>\<^verbatim>\<open>std::logic_error("Failed to get frame from cv::VideoCapture")\<close>\<close>

text \<open>
  The closure passed to \<^verbatim>\<open>SetCompletionCallback\<close>: the variables it captures by value.
  What it captures by reference lives in the state below.
\<close>

record Callback =
  cb_nextFrameId :: int
  cb_frame :: Mat
  cb_request :: InferRequest
  cb_startTime :: TimePoint
  cb_frameMode :: bool

text \<open>
  \<^verbatim>\<open>PerformanceMetrics\<close> is declared in a header outside this program; the loop only calls
  it, so a metrics object is the log of the calls made on it.
\<close>

datatype MetricsCall = Recalculate TimePoint | Stop | Reinitialize

text \<open>The command-line flags the loop reads.\<close>

record Flags =
  FLAGS_nireq :: nat
  FLAGS_no_show :: bool
  FLAGS_loop_input :: bool

text \<open>
  Where the control thread stands. \<open>Show\<close> carries the local \<^verbatim>\<open>requestResult\<close> that the
  locked block moved out of the map; \<open>Submit\<close> carries the frame just read and
  \<^verbatim>\<open>startTime\<close>; \<open>SwitchWait i\<close> and \<open>FinalWait i\<close> stand before the \<open>i\<close>-th
  \<^verbatim>\<open>Wait(RESULT_READY)\<close> of the mode switch and of section 9.
\<close>

datatype Location =
  LoopHead
  | Poll
  | Show RequestResult
  | SwitchWait nat
  | Decide
  | Submit Mat TimePoint
  | Waiting
  | AfterLoop
  | FinalWait nat
  | Exited
  | Raised exception

record State =
  pc :: Location
  isUserSpecifiedMode :: bool
  emptyRequests :: "InferRequest list"
  completedRequestResults :: "(int \<times> RequestResult) list"
  nextFrameId :: int
  nextFrameIdToShow :: int
  callbackException :: "exception option"
  modeMetrics :: "bool \<Rightarrow> MetricsCall list"
  capIsOpened :: bool
  running :: "Callback list"
    \<comment> \<open>requests started with \<^verbatim>\<open>StartAsync\<close> whose completion callback has not run yet\<close>
  shown :: "(int \<times> RequestResult) list"
    \<comment> \<open>history: what the rendering code received, with the key it was found under\<close>
  submitted :: "Mat list"
    \<comment> \<open>history: the frames handed to \<^verbatim>\<open>StartAsync\<close>, in order\<close>

text \<open>What the environment supplies to one transition of the control thread.\<close>

datatype ReadResult =
  GotFrame Mat
    \<comment> \<open>\<^verbatim>\<open>cap.read(frame)\<close> returned true\<close>
  | EmptyFrame
    \<comment> \<open>it returned false and \<^verbatim>\<open>frame.empty()\<close>\<close>
  | BrokenFrame
    \<comment> \<open>it returned false with a non-empty frame\<close>

record Env =
  key :: int
    \<comment> \<open>\<^verbatim>\<open>cv::waitKey(1)\<close>\<close>
  now :: TimePoint
    \<comment> \<open>\<^verbatim>\<open>std::chrono::steady_clock::now()\<close>\<close>
  capRead :: ReadResult
  reopened :: bool
    \<comment> \<open>\<^verbatim>\<open>cap.isOpened()\<close> after \<^verbatim>\<open>cap.open\<close> under \<^verbatim>\<open>-loop_input\<close>\<close>

datatype Extraction = Extracted Blob | Throws exception

datatype Event =
  Control Env
    \<comment> \<open>the control thread makes its next transition\<close>
  | Complete int Extraction
    \<comment> \<open>the runtime runs the completion callback that captured this \<^verbatim>\<open>nextFrameId\<close>\<close>

subsection \<open>The request vectors and the map\<close>

definition modeRequests :: "Flags \<Rightarrow> bool \<Rightarrow> InferRequest list" where
  "modeRequests fl userSpecified =
     (if userSpecified then map UserSpecifiedRequest [0..<FLAGS_nireq fl]
      else [MinLatencyRequest])"

text \<open>
  \<^verbatim>\<open>std::unordered_map<int, RequestResult>\<close> as an association list; \<^verbatim>\<open>insert\<close> leaves the
  map alone when the key is present.
\<close>

definition map_insert :: "int \<Rightarrow> RequestResult \<Rightarrow> (int \<times> RequestResult) list
    \<Rightarrow> (int \<times> RequestResult) list" where
  "map_insert k r m = (if k \<in> set (map fst m) then m else m @ [(k, r)])"

definition map_erase :: "int \<Rightarrow> (int \<times> RequestResult) list \<Rightarrow> (int \<times> RequestResult) list" where
  "map_erase k m = filter (\<lambda>p. fst p \<noteq> k) m"

definition INT_MAX :: int where
  "INT_MAX = 2147483647"

definition inFlight :: "State \<Rightarrow> InferRequest list" where
  "inFlight s = map cb_request (running s)"

subsection \<open>The completion callback (lines 480 to 503)\<close>

text \<open>
  The braced initialiser of \<^verbatim>\<open>RequestResult\<close> is evaluated left to right, so the
  extraction of the output can throw before anything is stored. On a throw the handler
  keeps the first exception only.
\<close>

definition completionCallback :: "Callback \<Rightarrow> Extraction \<Rightarrow> State \<Rightarrow> State" where
  "completionCallback cb x s =
     (case x of
        Throws e \<Rightarrow>
          (case callbackException s of
             None \<Rightarrow> s\<lparr>callbackException := Some e\<rparr>
           | Some _ \<Rightarrow> s)
      | Extracted b \<Rightarrow>
          (let s1 = s\<lparr>completedRequestResults :=
                   map_insert (cb_nextFrameId cb)
                     \<lparr>frame = cb_frame cb, outputBlob = b, requestStartTime = cb_startTime cb,
                      isSameMode = (cb_frameMode cb = isUserSpecifiedMode s)\<rparr>
                     (completedRequestResults s)\<rparr>
           in if isUserSpecifiedMode s1 = cb_frameMode cb
              then s1\<lparr>emptyRequests := emptyRequests s1 @ [cb_request cb]\<rparr>
              else s1))"

subsection \<open>The control thread (lines 341 to 554)\<close>

text \<open>
  A transition that is not enabled returns \<open>None\<close>: the control thread is blocked in a
  \<^verbatim>\<open>Wait\<close> or on the condition variable, or it has ended (\<open>Exited\<close> after section 9,
  \<open>Raised\<close> when an exception left the \<^verbatim>\<open>try\<close> block). \<^verbatim>\<open>nextFrameId\<close> is an \<^verbatim>\<open>int\<close>;
  incrementing it at \<^verbatim>\<open>INT_MAX\<close> is undefined, and the model has no transition there, as it
  has none for \<^verbatim>\<open>front()\<close> on an empty deque.
\<close>

definition breakCondition :: "Flags \<Rightarrow> State \<Rightarrow> bool" where
  "breakCondition fl s \<longleftrightarrow>
     \<not> capIsOpened s \<and> completedRequestResults s = [] \<and>
     ((isUserSpecifiedMode s \<and> length (emptyRequests s) = FLAGS_nireq fl) \<or>
      (\<not> isUserSpecifiedMode s \<and> length (emptyRequests s) = 1))"

definition logCall :: "bool \<Rightarrow> MetricsCall \<Rightarrow> (bool \<Rightarrow> MetricsCall list) \<Rightarrow> bool \<Rightarrow> MetricsCall list" where
  "logCall m c mm = mm(m := mm m @ [c])"

text \<open>Lines 360 to 416: the result is counted, measured and rendered.\<close>

definition render :: "RequestResult \<Rightarrow> State \<Rightarrow> State" where
  "render r s =
     s\<lparr>nextFrameIdToShow := nextFrameIdToShow s + 1,
       modeMetrics :=
         (if isSameMode r
          then logCall (isUserSpecifiedMode s) (Recalculate (requestStartTime r)) (modeMetrics s)
          else modeMetrics s),
       shown := shown s @ [(nextFrameIdToShow s, r)]\<rparr>"

text \<open>
  One transition of the control thread, by where it stands:
  \<^item> \<open>LoopHead\<close>: line 342, the captured exception is rethrown;
  \<^item> \<open>Poll\<close>: the locked block of lines 345 to 358, the end-of-input \<^verbatim>\<open>break\<close> or the
    \<^verbatim>\<open>find\<close> and \<^verbatim>\<open>erase\<close> under \<^verbatim>\<open>nextFrameIdToShow\<close>;
  \<^item> \<open>Show r\<close>: lines 360 to 426, rendering, then the key: Esc, q or Q breaks, Tab stops
    the metrics of the mode and flips \<^verbatim>\<open>isUserSpecifiedMode\<close>;
  \<^item> \<open>SwitchWait i\<close>: lines 428 to 438, the waits on the requests that the flipped flag
    selects, one by one, then the assignment of \<^verbatim>\<open>emptyRequests\<close>;
  \<^item> \<open>Decide\<close>: lines 443 to 456, the test for an empty request and an open capture,
    \<^verbatim>\<open>startTime\<close> and \<^verbatim>\<open>cap.read\<close>;
  \<^item> \<open>Submit f t\<close>: lines 458 to 507, the request is taken from the front of
    \<^verbatim>\<open>emptyRequests\<close>, gets its callback and is started;
  \<^item> \<open>Waiting\<close>: lines 509 to 514, the wait on the condition variable;
  \<^item> \<open>AfterLoop\<close> and \<open>FinalWait i\<close>: line 516 and the waits of lines 550 to 554.
\<close>

fun control :: "Flags \<Rightarrow> Env \<Rightarrow> Location \<Rightarrow> State \<Rightarrow> State option" where
  "control fl env LoopHead s =
     (case callbackException s of
        Some e \<Rightarrow> Some (s\<lparr>pc := Raised e\<rparr>)
      | None \<Rightarrow> Some (s\<lparr>pc := Poll\<rparr>))"
| "control fl env Poll s =
     (if breakCondition fl s then Some (s\<lparr>pc := AfterLoop\<rparr>)
      else (case map_of (completedRequestResults s) (nextFrameIdToShow s) of
              Some r \<Rightarrow>
                Some (s\<lparr>completedRequestResults :=
                          map_erase (nextFrameIdToShow s) (completedRequestResults s),
                        pc := Show r\<rparr>)
            | None \<Rightarrow> Some (s\<lparr>pc := Decide\<rparr>)))"
| "control fl env (Show r) s =
     (let s1 = render r s in
      if FLAGS_no_show fl then Some (s1\<lparr>pc := LoopHead\<rparr>)
      else if key env = 27 \<or> key env = 113 \<or> key env = 81 then Some (s1\<lparr>pc := AfterLoop\<rparr>)
      else if key env = 9 then
        Some (s1\<lparr>modeMetrics := logCall (isUserSpecifiedMode s1) Stop (modeMetrics s1),
                 isUserSpecifiedMode := \<not> isUserSpecifiedMode s1,
                 pc := SwitchWait 0\<rparr>)
      else Some (s1\<lparr>pc := LoopHead\<rparr>))"
| "control fl env (SwitchWait i) s =
     (let rs = modeRequests fl (isUserSpecifiedMode s) in
      if i < length rs then
        (if rs ! i \<in> set (inFlight s) then None else Some (s\<lparr>pc := SwitchWait (i + 1)\<rparr>))
      else
        Some (s\<lparr>emptyRequests := rs,
                modeMetrics := logCall (isUserSpecifiedMode s) Reinitialize (modeMetrics s),
                pc := LoopHead\<rparr>))"
| "control fl env Decide s =
     (if emptyRequests s \<noteq> [] \<and> capIsOpened s then
        (case capRead env of
           GotFrame f \<Rightarrow> Some (s\<lparr>pc := Submit f (now env)\<rparr>)
         | EmptyFrame \<Rightarrow>
             Some (s\<lparr>capIsOpened := (if FLAGS_loop_input fl then reopened env else False),
                     pc := LoopHead\<rparr>)
         | BrokenFrame \<Rightarrow> Some (s\<lparr>pc := Raised FailedToGetFrame\<rparr>))
      else Some (s\<lparr>pc := Waiting\<rparr>))"
| "control fl env (Submit f t) s =
     (case emptyRequests s of
        [] \<Rightarrow> None
      | request # rest \<Rightarrow>
          if nextFrameId s = INT_MAX then None
          else
            Some (s\<lparr>emptyRequests := rest,
                    running := running s @
                      [\<lparr>cb_nextFrameId = nextFrameId s, cb_frame = f, cb_request = request,
                        cb_startTime = t, cb_frameMode = isUserSpecifiedMode s\<rparr>],
                    nextFrameId := nextFrameId s + 1,
                    submitted := submitted s @ [f],
                    pc := LoopHead\<rparr>))"
| "control fl env Waiting s =
     (if callbackException s = None \<and> emptyRequests s = [] \<and> completedRequestResults s = []
      then None
      else Some (s\<lparr>pc := LoopHead\<rparr>))"
| "control fl env AfterLoop s =
     Some (s\<lparr>modeMetrics := logCall (isUserSpecifiedMode s) Stop (modeMetrics s),
             pc := FinalWait 0\<rparr>)"
| "control fl env (FinalWait i) s =
     (let rs = modeRequests fl (isUserSpecifiedMode s) in
      if i < length rs then
        (if rs ! i \<in> set (inFlight s) then None else Some (s\<lparr>pc := FinalWait (i + 1)\<rparr>))
      else Some (s\<lparr>pc := Exited\<rparr>))"
| "control fl env Exited s = None"
| "control fl env (Raised e) s = None"

subsection \<open>Runs\<close>

text \<open>
  The runtime picks the running request whose callback captured the given sequence number
  and runs the callback; the request is no longer running afterwards. An event that is not
  enabled makes the whole run \<open>None\<close>.
\<close>

definition step :: "Flags \<Rightarrow> Event \<Rightarrow> State \<Rightarrow> State option" where
  "step fl ev s =
     (case ev of
        Control env \<Rightarrow> control fl env (pc s) s
      | Complete k x \<Rightarrow>
          (case find (\<lambda>cb. cb_nextFrameId cb = k) (running s) of
             None \<Rightarrow> None
           | Some cb \<Rightarrow> Some (completionCallback cb x (s\<lparr>running := remove1 cb (running s)\<rparr>))))"

fun run :: "Flags \<Rightarrow> Event list \<Rightarrow> State \<Rightarrow> State option" where
  "run fl [] s = Some s"
| "run fl (ev # evs) s = (case step fl ev s of None \<Rightarrow> None | Some s' \<Rightarrow> run fl evs s')"

definition init :: "Flags \<Rightarrow> State" where
  "init fl =
     \<lparr>pc = LoopHead, isUserSpecifiedMode = True, emptyRequests = modeRequests fl True,
      completedRequestResults = [], nextFrameId = 0, nextFrameIdToShow = 0,
      callbackException = None, modeMetrics = (\<lambda>_. []), capIsOpened = True,
      running = [], shown = [], submitted = []\<rparr>"

text \<open>The state a run from the initial state ends in, for runs that are not \<open>None\<close>.\<close>

definition after :: "Flags \<Rightarrow> Event list \<Rightarrow> State" where
  "after fl evs = the (run fl evs (init fl))"

subsection \<open>Observations\<close>

text \<open>The sequence numbers handed to the rendering code, in the order it received them.\<close>

definition shownIds :: "State \<Rightarrow> int list" where
  "shownIds s = map fst (shown s)"

text \<open>The start times passed to \<^verbatim>\<open>recalculate\<close> on the metrics object of one mode.\<close>

fun recalculateArgs :: "MetricsCall list \<Rightarrow> TimePoint list" where
  "recalculateArgs [] = []"
| "recalculateArgs (Recalculate t # cs) = t # recalculateArgs cs"
| "recalculateArgs (c # cs) = recalculateArgs cs"

subsection \<open>Invariants of the loop\<close>

definition switching :: "Location \<Rightarrow> bool" where
  "switching l = (case l of SwitchWait i \<Rightarrow> True | _ \<Rightarrow> False)"

definition waitedFor :: "Location \<Rightarrow> nat" where
  "waitedFor l = (case l of SwitchWait i \<Rightarrow> i | FinalWait i \<Rightarrow> i | _ \<Rightarrow> 0)"

text \<open>
  The requests: no request has two pending callbacks, none is listed twice as empty, none
  is both; a request was started in the mode whose vector holds it; during a switch the
  requests already waited for are idle; outside a switch the empty requests belong to the
  active mode, and all of them are empty or running as long as no callback has failed.
\<close>

definition slotInv :: "Flags \<Rightarrow> State \<Rightarrow> bool" where
  "slotInv fl s \<longleftrightarrow>
     distinct (inFlight s) \<and> distinct (emptyRequests s) \<and>
     set (emptyRequests s) \<inter> set (inFlight s) = {} \<and>
     (\<forall>cb \<in> set (running s). cb_request cb \<in> set (modeRequests fl (cb_frameMode cb))) \<and>
     (switching (pc s) \<longrightarrow>
        set (take (waitedFor (pc s)) (modeRequests fl (isUserSpecifiedMode s))) \<inter> set (inFlight s) = {}) \<and>
     (\<not> switching (pc s) \<longrightarrow>
        set (emptyRequests s) \<subseteq> set (modeRequests fl (isUserSpecifiedMode s)) \<and>
        (callbackException s = None \<longrightarrow>
           set (modeRequests fl (isUserSpecifiedMode s)) \<subseteq> set (emptyRequests s) \<union> set (inFlight s)))"

definition showing :: "Location \<Rightarrow> bool" where
  "showing l = (case l of Show r \<Rightarrow> True | _ \<Rightarrow> False)"

text \<open>
  Between the locked block and \<^verbatim>\<open>nextFrameIdToShow++\<close> the result under
  \<^verbatim>\<open>nextFrameIdToShow\<close> has left the map already.
\<close>

definition firstUnseen :: "State \<Rightarrow> int" where
  "firstUnseen s = (if showing (pc s) then nextFrameIdToShow s + 1 else nextFrameIdToShow s)"

definition keys :: "State \<Rightarrow> int set" where
  "keys s = fst ` set (completedRequestResults s)"

definition ids :: "State \<Rightarrow> int set" where
  "ids s = cb_nextFrameId ` set (running s)"

text \<open>
  The sequence numbers: every number from the first unseen one up to \<^verbatim>\<open>nextFrameId\<close> is
  in the map or with a running request, never both and never twice, unless a callback
  has failed; the numbers shown are the ones below \<^verbatim>\<open>nextFrameIdToShow\<close>, in order.
\<close>

definition idInv :: "State \<Rightarrow> bool" where
  "idInv s \<longleftrightarrow>
     0 \<le> nextFrameIdToShow s \<and> firstUnseen s \<le> nextFrameId s \<and>
     distinct (map fst (completedRequestResults s)) \<and>
     distinct (map cb_nextFrameId (running s)) \<and>
     (\<forall>k \<in> keys s. k \<notin> ids s \<and> firstUnseen s \<le> k \<and> k < nextFrameId s) \<and>
     (\<forall>k \<in> ids s. firstUnseen s \<le> k \<and> k < nextFrameId s) \<and>
     map fst (shown s) = [0 .. nextFrameIdToShow s - 1] \<and>
     (callbackException s = None \<longrightarrow>
        (\<forall>k. firstUnseen s \<le> k \<and> k < nextFrameId s \<longrightarrow> k \<in> keys s \<or> k \<in> ids s))"



text \<open>
  The number of \<^verbatim>\<open>recalculate\<close> calls made so far on the two metrics objects, and the
  results shown so far whose \<^verbatim>\<open>isSameMode\<close> is set.
\<close>

definition measured :: "State \<Rightarrow> nat" where
  "measured s = length (recalculateArgs (modeMetrics s True)) + length (recalculateArgs (modeMetrics s False))"

definition shownSameMode :: "State \<Rightarrow> RequestResult list" where
  "shownSameMode s = filter isSameMode (map snd (shown s))"




subsection \<open>Sample runs\<close>

definition flags2 :: Flags where
  "flags2 = \<lparr>FLAGS_nireq = 2, FLAGS_no_show = False, FLAGS_loop_input = False\<rparr>"

definition noShowFlags :: Flags where
  "noShowFlags = \<lparr>FLAGS_nireq = 2, FLAGS_no_show = True, FLAGS_loop_input = False\<rparr>"

definition quiet :: Env where
  "quiet = \<lparr>key = - 1, now = 0, capRead = EmptyFrame, reopened = False\<rparr>"

definition proceed :: Event where
  "proceed = Control quiet"

definition readFrame :: "Mat \<Rightarrow> Event" where
  "readFrame f = Control (quiet\<lparr>capRead := GotFrame f, now := f\<rparr>)"

definition pressKey :: "int \<Rightarrow> Event" where
  "pressKey k = Control (quiet\<lparr>key := k\<rparr>)"

text \<open>One pass through the loop that reads a frame and starts a request on it.\<close>

definition submitFrame :: "Mat \<Rightarrow> Event list" where
  "submitFrame f = [proceed, proceed, readFrame f, proceed]"

definition twoStarted :: "Event list" where
  "twoStarted = submitFrame 10 @ submitFrame 11"


text \<open>Frame 0 completes first and the locked block finds it.\<close>

definition firstFound :: "Event list" where
  "firstFound = twoStarted @ [Complete 0 (Extracted 100), proceed, proceed]"


text \<open>Tab is pressed while frame 1 is still running; the switch runs to its end.\<close>

definition switched :: "Event list" where
  "switched = firstFound @ [pressKey 9, proceed, proceed]"

definition switchThenSubmit :: "Event list" where
  "switchThenSubmit = switched @ submitFrame 12"

text \<open>After the switch the input ends, and the loop is left at the locked block.\<close>

definition switchThenInputEnds :: "Event list" where
  "switchThenInputEnds = switched @ [proceed, proceed, proceed, proceed, proceed]"

definition switchThenExit :: "Event list" where
  "switchThenExit = switchThenInputEnds @ [proceed, proceed, proceed]"



text \<open>After the switch frame 1 completes and the locked block finds it.\<close>

definition staleFound :: "Event list" where
  "staleFound = switched @ [Complete 1 (Extracted 101), proceed, proceed]"

definition staleResult :: RequestResult where
  "staleResult = \<lparr>frame = 11, outputBlob = 101, requestStartTime = 11, isSameMode = False\<rparr>"

text \<open>Frame 0 stays in flight while the other request takes frame after frame.\<close>

definition reuseOneRequest :: "Event list" where
  "reuseOneRequest =
     twoStarted @ [Complete 1 (Extracted 101)] @ submitFrame 12 @
     [Complete 2 (Extracted 102)] @ submitFrame 13"



section \<open>Properties\<close>

subsection \<open>Runs and lists\<close>

lemma run_append: "run fl (evs @ evs') s = (case run fl evs s of None \<Rightarrow> None | Some s' \<Rightarrow> run fl evs' s')"
  by (induction evs arbitrary: s) (auto split: option.splits)

lemma run_induct_inv:
  assumes "run fl evs s0 = Some s" and "P s0"
    and "\<And>ev s s'. P s \<Longrightarrow> step fl ev s = Some s' \<Longrightarrow> P s'"
  shows "P s"
  using assms(1,2)
proof (induction evs arbitrary: s0)
  case Nil
  then show ?case by simp
next
  case (Cons ev evs)
  then show ?case by (auto split: option.splits intro: assms(3))
qed

lemma after_run: "run fl evs (init fl) \<noteq> None \<Longrightarrow> run fl evs (init fl) = Some (after fl evs)"
  by (auto simp: after_def)


lemma after_step:
  assumes "run fl (evs @ [ev]) (init fl) \<noteq> None"
  shows "run fl evs (init fl) = Some (after fl evs)"
    and "step fl ev (after fl evs) = Some (after fl (evs @ [ev]))"
  using assms by (auto simp: after_def run_append split: option.splits)

lemma modeRequests_distinct: "distinct (modeRequests fl m)"
  by (simp add: modeRequests_def distinct_map inj_on_def)

lemma modeRequests_disjoint: "r \<in> set (modeRequests fl m) \<Longrightarrow> r \<in> set (modeRequests fl m') \<Longrightarrow> m = m'"
  by (auto simp: modeRequests_def split: if_splits)

lemma remove1_map_notin:
  "distinct (map f xs) \<Longrightarrow> x \<in> set xs \<Longrightarrow> f x \<notin> f ` set (remove1 x xs)"
  by (induction xs) (auto simp: image_iff)

lemma remove1_map_distinct: "distinct (map f xs) \<Longrightarrow> distinct (map f (remove1 x xs))"
  by (induction xs) (auto simp: image_iff dest: notin_set_remove1)

lemma remove1_map_set:
  "x \<in> set xs \<Longrightarrow> f ` set xs = insert (f x) (f ` set (remove1 x xs))"
  by (induction xs) auto

lemma find_mem: "find P xs = Some x \<Longrightarrow> x \<in> set xs \<and> P x"
  by (induction xs) (auto split: if_splits)


subsection \<open>The request invariant holds in every run\<close>

lemma slotInv_init: "slotInv fl (init fl)"
  by (simp add: slotInv_def init_def inFlight_def modeRequests_distinct switching_def)

lemma slotInv_pc:
  "slotInv fl s \<Longrightarrow> \<not> switching (pc s) \<Longrightarrow> \<not> switching l \<Longrightarrow> slotInv fl (s\<lparr>pc := l\<rparr>)"
  by (simp add: slotInv_def inFlight_def)

lemma slotInv_control:
  assumes "slotInv fl s" and "control fl env (pc s) s = Some s'"
  shows "slotInv fl s'"
proof (cases "pc s")
  case LoopHead
  with assms(2) obtain l where "s' = s\<lparr>pc := l\<rparr>" "\<not> switching l"
    by (auto simp: switching_def split: option.splits)
  with assms(1) LoopHead show ?thesis by (simp add: slotInv_pc switching_def)
next
  case Poll
  from assms(1) Poll have nosw: "\<not> switching (pc s)" by (simp add: switching_def)
  from assms(2) Poll consider "s' = s\<lparr>pc := AfterLoop\<rparr>" | "s' = s\<lparr>pc := Decide\<rparr>"
    | r where "s' = s\<lparr>completedRequestResults :=
                          map_erase (nextFrameIdToShow s) (completedRequestResults s),
                        pc := Show r\<rparr>"
    by (auto split: option.splits if_splits)
  then show ?thesis
    using assms(1) nosw by cases (simp_all add: slotInv_def inFlight_def switching_def)
next
  case (Show r)
  from Show have nosw: "\<not> switching (pc s)" by (simp add: switching_def)
  from assms(2) Show consider "s' = (render r s)\<lparr>pc := LoopHead\<rparr>"
    | "s' = (render r s)\<lparr>pc := AfterLoop\<rparr>"
    | "s' = (render r s)\<lparr>modeMetrics := logCall (isUserSpecifiedMode (render r s)) Stop (modeMetrics (render r s)),
                 isUserSpecifiedMode := \<not> isUserSpecifiedMode (render r s),
                 pc := SwitchWait 0\<rparr>"
    by (auto simp: Let_def split: if_splits)
  then show ?thesis
    using assms(1) nosw
    by cases (simp_all add: slotInv_def inFlight_def switching_def waitedFor_def render_def)
next
  case (SwitchWait i)
  let ?rs = "modeRequests fl (isUserSpecifiedMode s)"
  from SwitchWait assms(1) have idle: "set (take i ?rs) \<inter> set (inFlight s) = {}"
    by (simp add: slotInv_def switching_def waitedFor_def)
  show ?thesis
  proof (cases "i < length ?rs")
    case True
    with SwitchWait assms(2) have s': "s' = s\<lparr>pc := SwitchWait (Suc i)\<rparr>" and "?rs ! i \<notin> set (inFlight s)"
      by (auto simp: Let_def split: if_splits)
    with idle True have "set (take (Suc i) ?rs) \<inter> set (inFlight s) = {}"
      by (simp add: take_Suc_conv_app_nth)
    with assms(1) show ?thesis
      unfolding s' by (simp add: slotInv_def inFlight_def switching_def waitedFor_def)
  next
    case False
    with idle have idle': "set ?rs \<inter> set (inFlight s) = {}" by simp
    from False SwitchWait assms(2)
    have s': "s' = s\<lparr>emptyRequests := ?rs,
                modeMetrics := logCall (isUserSpecifiedMode s) Reinitialize (modeMetrics s),
                pc := LoopHead\<rparr>"
      by (simp add: Let_def)
    from assms(1) idle' show ?thesis
      unfolding s' by (simp add: slotInv_def inFlight_def modeRequests_distinct switching_def)
  qed
next
  case Decide
  from Decide have nosw: "\<not> switching (pc s)" by (simp add: switching_def)
  from assms(2) Decide consider l where "s' = s\<lparr>pc := l\<rparr>" "\<not> switching l"
    | b where "s' = s\<lparr>capIsOpened := b, pc := LoopHead\<rparr>"
    by (auto simp: switching_def split: if_splits ReadResult.splits)
  then show ?thesis
    using assms(1) nosw by cases (simp_all add: slotInv_def inFlight_def switching_def)
next
  case (Submit f t)
  from Submit have nosw: "\<not> switching (pc s)" by (simp add: switching_def)
  from assms(2) Submit obtain request rest where e: "emptyRequests s = request # rest"
    and s': "s' = s\<lparr>emptyRequests := rest,
                    running := running s @
                      [\<lparr>cb_nextFrameId = nextFrameId s, cb_frame = f, cb_request = request,
                        cb_startTime = t, cb_frameMode = isUserSpecifiedMode s\<rparr>],
                    nextFrameId := nextFrameId s + 1,
                    submitted := submitted s @ [f],
                    pc := LoopHead\<rparr>"
    by (auto split: list.splits if_splits)
  from assms(1) nosw e show ?thesis
    unfolding s' by (auto simp: slotInv_def inFlight_def switching_def)
next
  case Waiting
  with assms(2) have "s' = s\<lparr>pc := LoopHead\<rparr>" by (auto split: if_splits)
  with assms(1) Waiting show ?thesis by (simp add: slotInv_pc switching_def)
next
  case AfterLoop
  with assms(2) have "s' = s\<lparr>modeMetrics := logCall (isUserSpecifiedMode s) Stop (modeMetrics s),
             pc := FinalWait 0\<rparr>" by simp
  with assms(1) AfterLoop show ?thesis by (simp add: slotInv_def inFlight_def switching_def)
next
  case (FinalWait i)
  with assms(2) obtain l where "s' = s\<lparr>pc := l\<rparr>" "\<not> switching l"
    by (auto simp: Let_def switching_def split: if_splits)
  with assms(1) FinalWait show ?thesis by (simp add: slotInv_pc switching_def)
next
  case Exited
  with assms show ?thesis by simp
next
  case (Raised e)
  with assms show ?thesis by simp
qed

lemma slotInv_complete:
  assumes "slotInv fl s" and "cb \<in> set (running s)"
  shows "slotInv fl (completionCallback cb x (s\<lparr>running := remove1 cb (running s)\<rparr>))"
proof -
  let ?rest = "cb_request ` set (remove1 cb (running s))"
  from assms have notin: "cb_request cb \<notin> ?rest"
    by (simp add: slotInv_def inFlight_def remove1_map_notin)
  from assms have dist: "distinct (map cb_request (remove1 cb (running s)))"
    by (simp add: slotInv_def inFlight_def remove1_map_distinct)
  have sub: "set (remove1 cb (running s)) \<subseteq> set (running s)"
    by (rule set_remove1_subset)
  have split: "set (inFlight s) = insert (cb_request cb) ?rest"
    using assms(2) by (simp add: inFlight_def remove1_map_set)
  from assms(2) have "cb_request cb \<in> set (inFlight s)"
    by (simp add: inFlight_def)
  with assms(1) have notempty: "cb_request cb \<notin> set (emptyRequests s)"
    by (auto simp: slotInv_def)
  from assms have home: "cb_request cb \<in> set (modeRequests fl (cb_frameMode cb))"
    by (simp add: slotInv_def)
  have away: "cb_request cb \<notin> set (modeRequests fl (isUserSpecifiedMode s))"
    if "isUserSpecifiedMode s \<noteq> cb_frameMode cb"
    using that home modeRequests_disjoint by blast
  from assms(1) have inv: "distinct (emptyRequests s)"
     "set (emptyRequests s) \<inter> ?rest = {}"
     "\<forall>c \<in> set (remove1 cb (running s)). cb_request c \<in> set (modeRequests fl (cb_frameMode c))"
     "switching (pc s) \<longrightarrow>
        set (take (waitedFor (pc s)) (modeRequests fl (isUserSpecifiedMode s))) \<inter> ?rest = {}"
     "\<not> switching (pc s) \<longrightarrow>
        set (emptyRequests s) \<subseteq> set (modeRequests fl (isUserSpecifiedMode s)) \<and>
        (callbackException s = None \<longrightarrow>
           set (modeRequests fl (isUserSpecifiedMode s)) \<subseteq> insert (cb_request cb) (set (emptyRequests s) \<union> ?rest))"
    using sub unfolding slotInv_def split by auto
  show ?thesis
  proof (cases x)
    case (Throws e)
    with inv dist show ?thesis
      by (simp add: slotInv_def completionCallback_def inFlight_def split: option.splits)
  next
    case (Extracted b)
    show ?thesis
    proof (cases "isUserSpecifiedMode s = cb_frameMode cb")
      case True
      with Extracted inv dist notin notempty home show ?thesis
        by (auto simp: slotInv_def completionCallback_def inFlight_def Let_def)
    next
      case False
      with Extracted inv dist away show ?thesis
        by (auto simp: slotInv_def completionCallback_def inFlight_def Let_def)
    qed
  qed
qed

lemma slotInv_step: "slotInv fl s \<Longrightarrow> step fl ev s = Some s' \<Longrightarrow> slotInv fl s'"
  by (cases ev) (auto simp: step_def split: option.splits dest: find_mem intro: slotInv_control slotInv_complete)

lemma slotInv_run: "run fl evs (init fl) = Some s \<Longrightarrow> slotInv fl s"
  by (erule run_induct_inv) (auto intro: slotInv_init slotInv_step)

subsection \<open>The sequence-number invariant holds in every run\<close>

lemma idInv_init: "idInv (init fl)"
  by (simp add: idInv_def init_def firstUnseen_def showing_def keys_def ids_def)

lemma idInv_same:
  assumes "idInv s"
    and "showing (pc s') = showing (pc s)"
    and "completedRequestResults s' = completedRequestResults s"
    and "running s' = running s"
    and "nextFrameId s' = nextFrameId s"
    and "nextFrameIdToShow s' = nextFrameIdToShow s"
    and "shown s' = shown s"
    and "callbackException s' = callbackException s"
  shows "idInv s'"
proof -
  have "firstUnseen s' = firstUnseen s" "keys s' = keys s" "ids s' = ids s"
    using assms by (simp_all add: firstUnseen_def keys_def ids_def)
  with assms show ?thesis by (simp add: idInv_def)
qed

lemma map_of_erase:
  assumes "map_of m k = Some r"
  shows "fst ` set (map_erase k m) = fst ` set m - {k}" and "k \<in> fst ` set m"
proof -
  from assms have "(k, r) \<in> set m" by (rule map_of_SomeD)
  then show "k \<in> fst ` set m" by force
  show "fst ` set (map_erase k m) = fst ` set m - {k}"
    by (auto simp: map_erase_def image_iff)
qed

lemma distinct_erase: "distinct (map fst m) \<Longrightarrow> distinct (map fst (map_erase k m))"
  by (simp add: map_erase_def distinct_map_filter)

lemma idInv_poll:
  assumes inv: "idInv s" and nosh: "\<not> showing (pc s)"
    and found: "map_of (completedRequestResults s) (nextFrameIdToShow s) = Some r"
  shows "idInv (s\<lparr>completedRequestResults :=
                     map_erase (nextFrameIdToShow s) (completedRequestResults s),
                   pc := Show r\<rparr>)"
    (is "idInv ?s'")
proof -
  let ?n = "nextFrameIdToShow s"
  have K: "keys ?s' = keys s - {?n}" and nK: "?n \<in> keys s"
    using map_of_erase[OF found] by (simp_all add: keys_def)
  have I: "ids ?s' = ids s" by (simp add: ids_def)
  have F: "firstUnseen ?s' = ?n + 1" "firstUnseen s = ?n"
    using nosh by (simp_all add: firstUnseen_def showing_def)
  from inv nK have nI: "?n \<notin> ids s" and nN: "?n < nextFrameId s"
    by (auto simp: idInv_def)
  have 1: "\<forall>k \<in> keys ?s'. k \<notin> ids ?s' \<and> firstUnseen ?s' \<le> k \<and> k < nextFrameId ?s'"
  proof
    fix k assume "k \<in> keys ?s'"
    then have "k \<in> keys s" "k \<noteq> ?n" unfolding K by auto
    with inv F show "k \<notin> ids ?s' \<and> firstUnseen ?s' \<le> k \<and> k < nextFrameId ?s'"
      unfolding I by (auto simp: idInv_def)
  qed
  have 2: "\<forall>k \<in> ids ?s'. firstUnseen ?s' \<le> k \<and> k < nextFrameId ?s'"
  proof
    fix k assume "k \<in> ids ?s'"
    then have "k \<in> ids s" "k \<noteq> ?n" using nI unfolding I by auto
    with inv F show "firstUnseen ?s' \<le> k \<and> k < nextFrameId ?s'"
      by (auto simp: idInv_def)
  qed
  have 3: "\<forall>k. firstUnseen ?s' \<le> k \<and> k < nextFrameId ?s' \<longrightarrow> k \<in> keys ?s' \<or> k \<in> ids ?s'"
    if "callbackException s = None"
  proof (intro allI impI)
    fix k assume k: "firstUnseen ?s' \<le> k \<and> k < nextFrameId ?s'"
    with F have "firstUnseen s \<le> k \<and> k < nextFrameId s" "k \<noteq> ?n" by auto
    with inv that show "k \<in> keys ?s' \<or> k \<in> ids ?s'"
      unfolding K I by (auto simp: idInv_def)
  qed
  from inv have rest: "0 \<le> ?n" "distinct (map fst (completedRequestResults s))"
    "distinct (map cb_nextFrameId (running s))" "map fst (shown s) = [0 .. ?n - 1]"
    by (simp_all add: idInv_def)
  show ?thesis
    unfolding idInv_def
    using 1 2 3 rest nN F(1) by (simp add: distinct_erase)
qed

lemma idInv_render:
  assumes inv: "idInv s" and sh: "showing (pc s)" and l: "\<not> showing l"
  shows "idInv ((render r s)\<lparr>modeMetrics := mm, isUserSpecifiedMode := m, pc := l\<rparr>)"
proof -
  from inv have "0 \<le> nextFrameIdToShow s" by (simp add: idInv_def)
  then have "[0 .. nextFrameIdToShow s] = [0 .. nextFrameIdToShow s - 1] @ [nextFrameIdToShow s]"
    by (simp add: upto_rec2)
  with inv sh l show ?thesis
    by (simp add: idInv_def firstUnseen_def keys_def ids_def render_def)
qed

lemma idInv_submit:
  assumes inv: "idInv s" and nosh: "\<not> showing (pc s)"
  shows "idInv (s\<lparr>emptyRequests := rest,
                    running := running s @
                      [\<lparr>cb_nextFrameId = nextFrameId s, cb_frame = f, cb_request = request,
                        cb_startTime = t, cb_frameMode = isUserSpecifiedMode s\<rparr>],
                    nextFrameId := nextFrameId s + 1,
                    submitted := submitted s @ [f],
                    pc := LoopHead\<rparr>)"
    (is "idInv ?s'")
proof -
  have K: "keys ?s' = keys s" by (simp add: keys_def)
  have I: "ids ?s' = insert (nextFrameId s) (ids s)" by (simp add: ids_def)
  have F: "firstUnseen ?s' = firstUnseen s"
    using nosh by (simp add: firstUnseen_def showing_def)
  from inv have new: "nextFrameId s \<notin> ids s" "nextFrameId s \<notin> keys s"
    by (auto simp: idInv_def)
  then have d: "nextFrameId s \<notin> cb_nextFrameId ` set (running s)" by (simp add: ids_def)
  have 1: "\<forall>k \<in> keys ?s'. k \<notin> ids ?s' \<and> firstUnseen ?s' \<le> k \<and> k < nextFrameId ?s'"
    unfolding K I F using inv new by (auto simp: idInv_def)
  have 2: "\<forall>k \<in> ids ?s'. firstUnseen ?s' \<le> k \<and> k < nextFrameId ?s'"
    unfolding K I F using inv by (auto simp: idInv_def)
  have 3: "\<forall>k. firstUnseen ?s' \<le> k \<and> k < nextFrameId ?s' \<longrightarrow> k \<in> keys ?s' \<or> k \<in> ids ?s'"
    if "callbackException s = None"
  proof (intro allI impI)
    fix k assume k: "firstUnseen ?s' \<le> k \<and> k < nextFrameId ?s'"
    then consider "k = nextFrameId s" | "firstUnseen s \<le> k \<and> k < nextFrameId s"
      unfolding F by fastforce
    then show "k \<in> keys ?s' \<or> k \<in> ids ?s'"
      unfolding K I using inv that by cases (auto simp: idInv_def)
  qed
  from inv have rest: "0 \<le> nextFrameIdToShow s" "distinct (map fst (completedRequestResults s))"
    "distinct (map cb_nextFrameId (running s))" "map fst (shown s) = [0 .. nextFrameIdToShow s - 1]"
    "firstUnseen s \<le> nextFrameId s"
    by (simp_all add: idInv_def)
  show ?thesis
    unfolding idInv_def
    using 1 2 3 rest d F by simp
qed

lemma idInv_control:
  assumes "idInv s" and "control fl env (pc s) s = Some s'"
  shows "idInv s'"
proof (cases "pc s")
  case LoopHead
  with assms(2) obtain l where "s' = s\<lparr>pc := l\<rparr>" "\<not> showing l"
    by (auto simp: showing_def split: option.splits)
  with assms(1) LoopHead show ?thesis by (auto intro: idInv_same simp: showing_def)
next
  case Poll
  from Poll have nosh: "\<not> showing (pc s)" by (simp add: showing_def)
  from assms(2) Poll consider l where "s' = s\<lparr>pc := l\<rparr>" "\<not> showing l"
    | r where "map_of (completedRequestResults s) (nextFrameIdToShow s) = Some r"
        "s' = s\<lparr>completedRequestResults :=
                          map_erase (nextFrameIdToShow s) (completedRequestResults s),
                        pc := Show r\<rparr>"
    by (auto simp: showing_def split: option.splits if_splits)
  then show ?thesis
  proof cases
    case 1
    with assms(1) nosh show ?thesis by (auto intro: idInv_same)
  next
    case 2
    with assms(1) nosh show ?thesis by (simp add: idInv_poll)
  qed
next
  case (Show r)
  from Show have sh: "showing (pc s)" by (simp add: showing_def)
  from assms(2) Show consider "s' = (render r s)\<lparr>pc := LoopHead\<rparr>"
    | "s' = (render r s)\<lparr>pc := AfterLoop\<rparr>"
    | "s' = (render r s)\<lparr>modeMetrics := logCall (isUserSpecifiedMode (render r s)) Stop (modeMetrics (render r s)),
                 isUserSpecifiedMode := \<not> isUserSpecifiedMode (render r s),
                 pc := SwitchWait 0\<rparr>"
    by (auto simp: Let_def split: if_splits)
  then show ?thesis
  proof cases
    case 1
    have "idInv ((render r s)\<lparr>modeMetrics := modeMetrics (render r s),
        isUserSpecifiedMode := isUserSpecifiedMode (render r s), pc := LoopHead\<rparr>)"
      using assms(1) sh by (rule idInv_render) (simp add: showing_def)
    with 1 show ?thesis by simp
  next
    case 2
    have "idInv ((render r s)\<lparr>modeMetrics := modeMetrics (render r s),
        isUserSpecifiedMode := isUserSpecifiedMode (render r s), pc := AfterLoop\<rparr>)"
      using assms(1) sh by (rule idInv_render) (simp add: showing_def)
    with 2 show ?thesis by simp
  next
    case 3
    show ?thesis unfolding 3
      using assms(1) sh by (rule idInv_render) (simp add: showing_def)
  qed
next
  case (SwitchWait i)
  from assms(2) SwitchWait consider "s' = s\<lparr>pc := SwitchWait (i + 1)\<rparr>"
    | "s' = s\<lparr>emptyRequests := modeRequests fl (isUserSpecifiedMode s),
                modeMetrics := logCall (isUserSpecifiedMode s) Reinitialize (modeMetrics s),
                pc := LoopHead\<rparr>"
    by (auto simp: Let_def split: if_splits)
  then show ?thesis
    using assms(1) SwitchWait by cases (auto intro: idInv_same simp: showing_def)
next
  case Decide
  from assms(2) Decide consider l where "s' = s\<lparr>pc := l\<rparr>" "\<not> showing l"
    | b where "s' = s\<lparr>capIsOpened := b, pc := LoopHead\<rparr>"
    by (auto simp: showing_def split: if_splits ReadResult.splits)
  then show ?thesis
    using assms(1) Decide by cases (auto intro: idInv_same simp: showing_def)
next
  case (Submit f t)
  from Submit have nosh: "\<not> showing (pc s)" by (simp add: showing_def)
  from assms(2) Submit obtain request rest where
      s': "s' = s\<lparr>emptyRequests := rest,
                    running := running s @
                      [\<lparr>cb_nextFrameId = nextFrameId s, cb_frame = f, cb_request = request,
                        cb_startTime = t, cb_frameMode = isUserSpecifiedMode s\<rparr>],
                    nextFrameId := nextFrameId s + 1,
                    submitted := submitted s @ [f],
                    pc := LoopHead\<rparr>"
    by (auto split: list.splits if_splits)
  from assms(1) nosh show ?thesis
    unfolding s' by (rule idInv_submit)
next
  case Waiting
  with assms(2) have "s' = s\<lparr>pc := LoopHead\<rparr>" by (auto split: if_splits)
  with assms(1) Waiting show ?thesis by (auto intro: idInv_same simp: showing_def)
next
  case AfterLoop
  with assms(2) have "s' = s\<lparr>modeMetrics := logCall (isUserSpecifiedMode s) Stop (modeMetrics s),
             pc := FinalWait 0\<rparr>" by simp
  with assms(1) AfterLoop show ?thesis
    by (auto intro: idInv_same simp: showing_def)
next
  case (FinalWait i)
  with assms(2) obtain l where "s' = s\<lparr>pc := l\<rparr>" "\<not> showing l"
    by (auto simp: Let_def showing_def split: if_splits)
  with assms(1) FinalWait show ?thesis by (auto intro: idInv_same simp: showing_def)
next
  case Exited
  with assms show ?thesis by simp
next
  case (Raised e)
  with assms show ?thesis by simp
qed

lemma completionCallback_keeps:
  "pc (completionCallback cb x s) = pc s"
  "running (completionCallback cb x s) = running s"
  "isUserSpecifiedMode (completionCallback cb x s) = isUserSpecifiedMode s"
  "nextFrameId (completionCallback cb x s) = nextFrameId s"
  "nextFrameIdToShow (completionCallback cb x s) = nextFrameIdToShow s"
  "modeMetrics (completionCallback cb x s) = modeMetrics s"
  "capIsOpened (completionCallback cb x s) = capIsOpened s"
  "shown (completionCallback cb x s) = shown s"
  "submitted (completionCallback cb x s) = submitted s"
  by (simp_all add: completionCallback_def Let_def split: Extraction.splits option.splits)

lemma completionCallback_Extracted:
  "completedRequestResults (completionCallback cb (Extracted b) s) =
     map_insert (cb_nextFrameId cb)
       \<lparr>frame = cb_frame cb, outputBlob = b, requestStartTime = cb_startTime cb,
        isSameMode = (cb_frameMode cb = isUserSpecifiedMode s)\<rparr>
       (completedRequestResults s)"
  "emptyRequests (completionCallback cb (Extracted b) s) =
     (if isUserSpecifiedMode s = cb_frameMode cb then emptyRequests s @ [cb_request cb]
      else emptyRequests s)"
  "callbackException (completionCallback cb (Extracted b) s) = callbackException s"
  by (simp_all add: completionCallback_def Let_def)


lemma idInv_complete:
  assumes inv: "idInv s" and cb: "cb \<in> set (running s)"
  shows "idInv (completionCallback cb x (s\<lparr>running := remove1 cb (running s)\<rparr>))"
proof -
  let ?s0 = "s\<lparr>running := remove1 cb (running s)\<rparr>"
  let ?k = "cb_nextFrameId cb"
  from inv cb have notin: "?k \<notin> ids ?s0"
    by (simp add: idInv_def ids_def remove1_map_notin)
  from inv have dist: "distinct (map cb_nextFrameId (running ?s0))"
    by (simp add: idInv_def remove1_map_distinct)
  have split: "ids s = insert ?k (ids ?s0)"
    using cb by (simp add: ids_def remove1_map_set)
  then have kI: "?k \<in> ids s" by simp
  with inv have fresh: "?k \<notin> keys s" and bounds: "firstUnseen s \<le> ?k" "?k < nextFrameId s"
    by (auto simp: idInv_def)
  have sub: "ids ?s0 \<subseteq> ids s" using split by auto
  have F: "firstUnseen ?s0 = firstUnseen s" by (simp add: firstUnseen_def)
  have K: "keys ?s0 = keys s" by (simp add: keys_def)
  show ?thesis
  proof (cases x)
    case (Throws e)
    let ?s' = "completionCallback cb x ?s0"
    have same: "keys ?s' = keys s" "ids ?s' = ids ?s0" "firstUnseen ?s' = firstUnseen s"
      "nextFrameId ?s' = nextFrameId s" "nextFrameIdToShow ?s' = nextFrameIdToShow s"
      "shown ?s' = shown s" "completedRequestResults ?s' = completedRequestResults s"
      "running ?s' = running ?s0" "callbackException ?s' \<noteq> None"
      using Throws
      by (simp_all add: completionCallback_def keys_def ids_def firstUnseen_def split: option.splits)
    from inv sub have 1: "\<forall>k \<in> keys s. k \<notin> ids ?s0 \<and> firstUnseen s \<le> k \<and> k < nextFrameId s"
      and 2: "\<forall>k \<in> ids ?s0. firstUnseen s \<le> k \<and> k < nextFrameId s"
      by (auto simp: idInv_def)
    from inv have rest: "0 \<le> nextFrameIdToShow s" "distinct (map fst (completedRequestResults s))"
      "map fst (shown s) = [0 .. nextFrameIdToShow s - 1]" "firstUnseen s \<le> nextFrameId s"
      by (simp_all add: idInv_def)
    show ?thesis
      unfolding idInv_def same using 1 2 rest dist same(9) by auto
  next
    case (Extracted b)
    let ?s' = "completionCallback cb x ?s0"
    from fresh have fresh': "?k \<notin> set (map fst (completedRequestResults s))"
      by (simp add: keys_def)
    obtain r where C: "completedRequestResults ?s' = completedRequestResults s @ [(?k, r)]"
      using fresh' unfolding Extracted completionCallback_Extracted map_insert_def by simp
    have same: "keys ?s' = insert ?k (keys s)" "ids ?s' = ids ?s0" "firstUnseen ?s' = firstUnseen s"
      "nextFrameId ?s' = nextFrameId s" "nextFrameIdToShow ?s' = nextFrameIdToShow s"
      "shown ?s' = shown s" 
      "running ?s' = running ?s0" "callbackException ?s' = callbackException s"
      using C Extracted
      by (simp_all add: completionCallback_keeps completionCallback_Extracted keys_def ids_def firstUnseen_def)
    from inv sub notin bounds
    have 1: "\<forall>k \<in> insert ?k (keys s). k \<notin> ids ?s0 \<and> firstUnseen s \<le> k \<and> k < nextFrameId s"
      and 2: "\<forall>k \<in> ids ?s0. firstUnseen s \<le> k \<and> k < nextFrameId s"
      by (auto simp: idInv_def)
    have 3: "\<forall>k. firstUnseen s \<le> k \<and> k < nextFrameId s \<longrightarrow> k \<in> insert ?k (keys s) \<or> k \<in> ids ?s0"
      if "callbackException s = None"
      using inv that unfolding idInv_def split by auto
    from inv have rest: "0 \<le> nextFrameIdToShow s" "distinct (map fst (completedRequestResults s))"
      "map fst (shown s) = [0 .. nextFrameIdToShow s - 1]" "firstUnseen s \<le> nextFrameId s"
      by (simp_all add: idInv_def)
    from fresh have "?k \<notin> fst ` set (completedRequestResults s)" by (simp add: keys_def)
    with rest have d: "distinct (map fst (completedRequestResults ?s'))" unfolding C by simp
    show ?thesis
      unfolding idInv_def same using 1 2 3 rest dist d by simp
  qed
qed

lemma idInv_step: "idInv s \<Longrightarrow> step fl ev s = Some s' \<Longrightarrow> idInv s'"
  by (cases ev) (auto simp: step_def split: option.splits dest: find_mem intro: idInv_control idInv_complete)

lemma idInv_run: "run fl evs (init fl) = Some s \<Longrightarrow> idInv s"
  by (erule run_induct_inv) (auto intro: idInv_init idInv_step)


subsection \<open>The frame invariant holds in every run\<close>










subsection \<open>When all requests of the active mode are empty\<close>



subsection \<open>Results are shown in submission order\<close>




subsection \<open>The mode switch\<close>




subsection \<open>The final wait\<close>

text \<open>
  C3. With two user-specified requests, Tab pressed while frame 1 is running and the input
  ending right after the switch, the program reaches its end in min-latency mode while the
  user-specified request holding frame 1 still has its completion callback pending:
  section 9 waited for the min-latency request only.
\<close>

theorem shutdown_leaves_request_running:
  "run flags2 switchThenExit (init flags2) \<noteq> None \<and>
   pc (after flags2 switchThenExit) = Exited \<and>
   isUserSpecifiedMode (after flags2 switchThenExit) = False \<and>
   inFlight (after flags2 switchThenExit) = [UserSpecifiedRequest 1] \<and>
   map cb_nextFrameId (running (after flags2 switchThenExit)) = [1]"
  by code_simp

subsection \<open>No request is started twice\<close>

text \<open>
  C4. In every state a run can reach, no request has two pending completion callbacks,
  no request is listed twice in \<^verbatim>\<open>emptyRequests\<close>, and no request with a pending callback
  is in \<^verbatim>\<open>emptyRequests\<close>. The states of a mode switch, before and after
  \<^verbatim>\<open>emptyRequests\<close> is assigned again, are among them.
\<close>

theorem no_request_started_twice:
  assumes "run fl evs (init fl) = Some s"
  shows "distinct (inFlight s) \<and> distinct (emptyRequests s) \<and>
         set (emptyRequests s) \<inter> set (inFlight s) = {}"
  using slotInv_run[OF assms] by (simp add: slotInv_def)

theorem no_request_started_twice_witness:
  "inFlight (after flags2 switchThenSubmit) = [UserSpecifiedRequest 1, MinLatencyRequest] \<and>
   emptyRequests (after flags2 switchThenSubmit) = [] \<and>
   distinct (inFlight (after flags2 switchThenSubmit)) \<and>
   distinct (emptyRequests (after flags2 switchThenSubmit)) \<and>
   set (emptyRequests (after flags2 switchThenSubmit)) \<inter>
     set (inFlight (after flags2 switchThenSubmit)) = {}"
proof -
  have "run flags2 switchThenSubmit (init flags2) \<noteq> None"
    by code_simp
  then have r: "run flags2 switchThenSubmit (init flags2) = Some (after flags2 switchThenSubmit)"
    by (auto simp: after_def)
  have "inFlight (after flags2 switchThenSubmit) = [UserSpecifiedRequest 1, MinLatencyRequest]"
    and "emptyRequests (after flags2 switchThenSubmit) = []"
    by code_simp+
  with no_request_started_twice[OF r] show ?thesis
    by simp
qed

subsection \<open>The first callback failure wins\<close>






subsection \<open>What a completion callback does\<close>





subsection \<open>Leaving the loop at the end of the input\<close>




subsection \<open>How many results wait in the map\<close>

lemma modeRequests_card: "card (set (modeRequests fl True) \<union> set (modeRequests fl False)) \<le> FLAGS_nireq fl + 1"
proof -
  have "card (set (modeRequests fl True) \<union> set (modeRequests fl False))
      \<le> card (set (modeRequests fl True)) + card (set (modeRequests fl False))"
    by (rule card_Un_le)
  also have "\<dots> \<le> length (modeRequests fl True) + length (modeRequests fl False)"
    by (intro add_mono card_length)
  also have "\<dots> = FLAGS_nireq fl + 1" by (simp add: modeRequests_def)
  finally show ?thesis .
qed

text \<open>
  C8. In every state a run can reach, the results in the map together with the running
  requests are at most \<^verbatim>\<open>nextFrameId - nextFrameIdToShow\<close>, and the running requests are at
  most \<^verbatim>\<open>FLAGS_nireq + 1\<close>.
\<close>

theorem buffered_results_bounded:
  assumes "run fl evs (init fl) = Some s"
  shows "int (length (completedRequestResults s)) + int (length (running s))
           \<le> nextFrameId s - nextFrameIdToShow s \<and>
         length (running s) \<le> FLAGS_nireq fl + 1"
proof
  from assms have id: "idInv s" by (rule idInv_run)
  have ck: "card (keys s) = length (completedRequestResults s)"
    using id distinct_card[of "map fst (completedRequestResults s)"]
    by (simp add: idInv_def keys_def)
  have ci: "card (ids s) = length (running s)"
    using id distinct_card[of "map cb_nextFrameId (running s)"]
    by (simp add: idInv_def ids_def)
  from id have dis: "keys s \<inter> ids s = {}" by (auto simp: idInv_def)
  from id have sub: "keys s \<union> ids s \<subseteq> {firstUnseen s ..< nextFrameId s}"
    by (auto simp: idInv_def)
  have fin: "finite (keys s)" "finite (ids s)" by (simp_all add: keys_def ids_def)
  from fin dis have "card (keys s \<union> ids s) = card (keys s) + card (ids s)"
    by (simp add: card_Un_disjoint)
  moreover have "card (keys s \<union> ids s) \<le> card {firstUnseen s ..< nextFrameId s}"
    using sub by (intro card_mono) simp_all
  ultimately have "length (completedRequestResults s) + length (running s) \<le> nat (nextFrameId s - firstUnseen s)"
    using ck ci by simp
  moreover have "nextFrameIdToShow s \<le> firstUnseen s" by (simp add: firstUnseen_def)
  moreover from id have "firstUnseen s \<le> nextFrameId s" by (simp add: idInv_def)
  ultimately show "int (length (completedRequestResults s)) + int (length (running s))
           \<le> nextFrameId s - nextFrameIdToShow s"
    by linarith
next
  from assms have sl: "slotInv fl s" by (rule slotInv_run)
  then have home: "\<forall>cb \<in> set (running s). cb_request cb \<in> set (modeRequests fl (cb_frameMode cb))"
    by (simp add: slotInv_def)
  have "set (inFlight s) \<subseteq> set (modeRequests fl True) \<union> set (modeRequests fl False)"
  proof
    fix r assume "r \<in> set (inFlight s)"
    then obtain cb where "cb \<in> set (running s)" "r = cb_request cb"
      by (auto simp: inFlight_def)
    with home have "r \<in> set (modeRequests fl (cb_frameMode cb))" by simp
    then show "r \<in> set (modeRequests fl True) \<union> set (modeRequests fl False)"
      by (cases "cb_frameMode cb") simp_all
  qed
  then have "card (set (inFlight s)) \<le> card (set (modeRequests fl True) \<union> set (modeRequests fl False))"
    by (simp add: card_mono)
  moreover from sl have "card (set (inFlight s)) = length (running s)"
    using distinct_card[of "inFlight s"] by (simp add: slotInv_def inFlight_def)
  ultimately show "length (running s) \<le> FLAGS_nireq fl + 1"
    using modeRequests_card[of fl] by linarith
qed

theorem buffered_results_bounded_witness:
  "length (completedRequestResults (after flags2 reuseOneRequest)) = 2 \<and>
   length (running (after flags2 reuseOneRequest)) = 2 \<and>
   int (length (completedRequestResults (after flags2 reuseOneRequest))) +
     int (length (running (after flags2 reuseOneRequest)))
     \<le> nextFrameId (after flags2 reuseOneRequest) - nextFrameIdToShow (after flags2 reuseOneRequest) \<and>
   length (running (after flags2 reuseOneRequest)) \<le> FLAGS_nireq flags2 + 1"
proof -
  have "run flags2 reuseOneRequest (init flags2) \<noteq> None" by code_simp
  then have r: "run flags2 reuseOneRequest (init flags2) = Some (after flags2 reuseOneRequest)"
    by (rule after_run)
  have v: "length (completedRequestResults (after flags2 reuseOneRequest)) = 2"
    "length (running (after flags2 reuseOneRequest)) = 2"
    by code_simp+
  from buffered_results_bounded[OF r] v show ?thesis by blast
qed

text \<open>
  The difference itself is not bounded by the number of requests: a request is returned to
  \<^verbatim>\<open>emptyRequests\<close> by its callback, before its result is shown. With frame 0 still
  running, the other request has taken frames 1, 2 and 3.
\<close>

theorem buffered_results_bounded_counterexample:
  "run flags2 reuseOneRequest (init flags2) \<noteq> None \<and>
   nextFrameId (after flags2 reuseOneRequest) - nextFrameIdToShow (after flags2 reuseOneRequest) = 4 \<and>
   int (FLAGS_nireq flags2) + 1 = 3 \<and>
   inFlight (after flags2 reuseOneRequest) = [UserSpecifiedRequest 0, UserSpecifiedRequest 1]"
  by code_simp

subsection \<open>Results of the previous mode are shown but not measured\<close>

lemma recalculateArgs_append:
  "recalculateArgs (xs @ ys) = recalculateArgs xs @ recalculateArgs ys"
  by (induction xs rule: recalculateArgs.induct) simp_all

lemma measured_logCall:
  "measured (s\<lparr>modeMetrics := logCall m c (modeMetrics s)\<rparr>) =
     measured s + length (recalculateArgs [c])"
  by (cases m) (simp_all add: measured_def logCall_def recalculateArgs_append)

lemma measured_control:
  assumes "control fl env (pc s) s = Some s'" and "measured s = length (shownSameMode s)"
  shows "measured s' = length (shownSameMode s')"
proof (cases "pc s")
  case (Show r)
  have r: "measured (render r s) = length (shownSameMode (render r s))"
    using assms(2) measured_logCall[where s = s and m = "isUserSpecifiedMode s" and c = "Recalculate (requestStartTime r)"]
    by (simp add: render_def shownSameMode_def measured_def)
  have st: "measured ((render r s)\<lparr>modeMetrics := logCall m Stop (modeMetrics (render r s))\<rparr>) = measured (render r s)" for m
    by (simp add: measured_logCall)
  from assms(1) Show r st show ?thesis
    by (auto simp: Let_def measured_def shownSameMode_def split: if_splits)
next
  case (SwitchWait i)
  with assms measured_logCall[where s = s and m = "isUserSpecifiedMode s" and c = Reinitialize] show ?thesis
    by (auto simp: Let_def measured_def shownSameMode_def split: if_splits)
next
  case AfterLoop
  with assms measured_logCall[where s = s and m = "isUserSpecifiedMode s" and c = Stop] show ?thesis
    by (auto simp: Let_def measured_def shownSameMode_def split: if_splits)
next
  case Decide
  with assms show ?thesis
    by (auto simp: measured_def shownSameMode_def split: if_splits ReadResult.splits)
qed (use assms in \<open>auto simp: Let_def measured_def shownSameMode_def split: if_splits option.splits list.splits\<close>)

lemma measured_step:
  assumes "measured s = length (shownSameMode s)" and "step fl ev s = Some s'"
  shows "measured s' = length (shownSameMode s')"
proof (cases ev)
  case (Control env)
  with assms show ?thesis by (auto simp: step_def intro: measured_control)
next
  case (Complete k x)
  with assms show ?thesis
    by (auto simp: step_def measured_def shownSameMode_def completionCallback_keeps split: option.splits)
qed

lemma measured_run: "run fl evs (init fl) = Some s \<Longrightarrow> measured s = length (shownSameMode s)"
proof (erule run_induct_inv)
  show "measured (init fl) = length (shownSameMode (init fl))"
    by (simp add: measured_def shownSameMode_def init_def)
qed (rule measured_step)

text \<open>
  C9. In every state a run can reach with a result \<open>r\<close> taken out of the map, the next
  transition of the control thread hands \<open>r\<close> to the rendering code under
  \<^verbatim>\<open>nextFrameIdToShow\<close>, which makes the numbers shown \<open>0, \<dots>, nextFrameIdToShow\<close>,
  whatever \<^verbatim>\<open>isSameMode\<close> says; \<^verbatim>\<open>recalculate\<close> is called with the start time of \<open>r\<close> on the
  metrics of the active mode when \<^verbatim>\<open>isSameMode\<close> is set, and on no metrics otherwise. In the
  whole run there are as many \<^verbatim>\<open>recalculate\<close> calls as results shown with \<^verbatim>\<open>isSameMode\<close>
  set.
\<close>

theorem stale_result_shown_not_measured:
  assumes "run fl evs (init fl) = Some s" and "pc s = Show r"
    and "step fl (Control env) s = Some s'"
  shows "shown s' = shown s @ [(nextFrameIdToShow s, r)] \<and>
         shownIds s' = [0 .. nextFrameIdToShow s] \<and>
         recalculateArgs (modeMetrics s' m) =
           recalculateArgs (modeMetrics s m) @
             (if isSameMode r \<and> m = isUserSpecifiedMode s then [requestStartTime r] else []) \<and>
         measured s' = length (shownSameMode s')"
proof -
  from assms(1) have "idInv s" by (rule idInv_run)
  then have "shownIds s = [0 .. nextFrameIdToShow s - 1]" "0 \<le> nextFrameIdToShow s"
    by (simp_all add: idInv_def shownIds_def)
  then have ids: "shownIds s @ [nextFrameIdToShow s] = [0 .. nextFrameIdToShow s]"
    by (simp add: upto_rec2)
  from assms(1) have reach: "run fl (evs @ [Control env]) (init fl) = Some s'"
    using assms(3) by (simp add: run_append)
  have m: "measured s' = length (shownSameMode s')"
    using reach by (rule measured_run)
  from assms(2,3) ids m show ?thesis
    by (auto simp: step_def Let_def render_def logCall_def shownIds_def recalculateArgs_append split: if_splits)
qed

theorem stale_result_shown_not_measured_witness:
  "pc (after flags2 staleFound) = Show staleResult \<and>
   isSameMode staleResult = False \<and>
   nextFrameIdToShow (after flags2 staleFound) = 1 \<and>
   shown (after flags2 (staleFound @ [proceed])) =
     shown (after flags2 staleFound) @ [(nextFrameIdToShow (after flags2 staleFound), staleResult)] \<and>
   shownIds (after flags2 (staleFound @ [proceed])) = [0 .. nextFrameIdToShow (after flags2 staleFound)] \<and>
   recalculateArgs (modeMetrics (after flags2 (staleFound @ [proceed])) False) =
     recalculateArgs (modeMetrics (after flags2 staleFound) False) \<and>
   recalculateArgs (modeMetrics (after flags2 (staleFound @ [proceed])) True) = [10]"
proof -
  have "run flags2 (staleFound @ [proceed]) (init flags2) \<noteq> None" by code_simp
  note a = after_step[OF this, unfolded proceed_def]
  have h: "pc (after flags2 staleFound) = Show staleResult" "isSameMode staleResult = False"
    "nextFrameIdToShow (after flags2 staleFound) = 1"
    "recalculateArgs (modeMetrics (after flags2 (staleFound @ [proceed])) True) = [10]"
    by code_simp+
  from stale_result_shown_not_measured[OF a(1) h(1) a(2), of False] h
  show ?thesis
    unfolding proceed_def by simp
qed

subsection \<open>Without display the mode never changes\<close>

text \<open>
  C10. A transition that changes \<^verbatim>\<open>isUserSpecifiedMode\<close> is a transition of the control
  thread that has just handed a result to the rendering code and read the Tab key, with
  \<^verbatim>\<open>-no_show\<close> unset. With \<^verbatim>\<open>-no_show\<close> set, \<^verbatim>\<open>isUserSpecifiedMode\<close> is true in every
  state of every run.
\<close>

theorem mode_switch_needs_display:
  assumes "run fl evs (init fl) = Some s" and "step fl ev s = Some s'"
  shows "(isUserSpecifiedMode s' \<noteq> isUserSpecifiedMode s \<longrightarrow>
            \<not> FLAGS_no_show fl \<and>
            (\<exists>r env. pc s = Show r \<and> ev = Control env \<and> key env = 9 \<and>
               shown s' = shown s @ [(nextFrameIdToShow s, r)])) \<and>
         (FLAGS_no_show fl \<longrightarrow> isUserSpecifiedMode s \<and> isUserSpecifiedMode s')"
proof -
  have onlyTab: "\<not> FLAGS_no_show fl \<and>
            (\<exists>r env. pc t = Show r \<and> ev' = Control env \<and> key env = 9 \<and>
               shown t' = shown t @ [(nextFrameIdToShow t, r)])"
    if "step fl ev' t = Some t'" "isUserSpecifiedMode t' \<noteq> isUserSpecifiedMode t" for ev' t t'
  proof (cases ev')
    case (Control env)
    with that show ?thesis
      by (cases "pc t")
        (auto simp: step_def Let_def render_def split: if_splits option.splits list.splits ReadResult.splits)
  next
    case (Complete k x)
    with that show ?thesis
      by (auto simp: step_def completionCallback_keeps split: option.splits)
  qed
  have keep: "isUserSpecifiedMode t" if "FLAGS_no_show fl" "run fl es (init fl) = Some t" for es t
    using that(2)
  proof (rule run_induct_inv)
    show "isUserSpecifiedMode (init fl)" by (simp add: init_def)
  next
    fix ev' u u' assume "isUserSpecifiedMode u" "step fl ev' u = Some u'"
    with onlyTab[of ev' u u'] that(1) show "isUserSpecifiedMode u'" by auto
  qed
  from assms have "run fl (evs @ [ev]) (init fl) = Some s'" by (simp add: run_append)
  with keep assms(1) onlyTab[OF assms(2)] show ?thesis by blast
qed

theorem mode_switch_needs_display_witness:
  "isUserSpecifiedMode (after flags2 firstFound) = True \<and>
   isUserSpecifiedMode (after flags2 (firstFound @ [pressKey 9])) = False \<and>
   \<not> FLAGS_no_show flags2 \<and>
   (\<exists>r env. pc (after flags2 firstFound) = Show r \<and> pressKey 9 = Control env \<and> key env = 9 \<and>
      shown (after flags2 (firstFound @ [pressKey 9])) =
        shown (after flags2 firstFound) @ [(nextFrameIdToShow (after flags2 firstFound), r)]) \<and>
   FLAGS_no_show noShowFlags \<and>
   isUserSpecifiedMode (after noShowFlags firstFound) \<and>
   isUserSpecifiedMode (after noShowFlags (firstFound @ [pressKey 9]))"
proof -
  have "run flags2 (firstFound @ [pressKey 9]) (init flags2) \<noteq> None" by code_simp
  note a = after_step[OF this]
  have ha: "isUserSpecifiedMode (after flags2 firstFound) = True"
    "isUserSpecifiedMode (after flags2 (firstFound @ [pressKey 9])) = False"
    by code_simp+
  have "run noShowFlags (firstFound @ [pressKey 9]) (init noShowFlags) \<noteq> None" by code_simp
  note b = after_step[OF this]
  have hb: "FLAGS_no_show noShowFlags" by code_simp
  from mode_switch_needs_display[OF a] ha mode_switch_needs_display[OF b] hb
  show ?thesis by simp
qed

end
